theory Spec2Isabelle
  imports Complex_Main
begin

section \<open>Data model of the gallery (src/src/App.jsx)\<close>

text \<open>
  The component \<open>App\<close> keeps three pieces of React state (\<open>images\<close>, \<open>selectedIndex\<close>,
  \<open>loading\<close>) and two refs (\<open>zoomStates\<close>, \<open>transformRef\<close>).  The browser is modelled by
  what the component asks of it: a directory picker, directory listings, \<open>getFile\<close>,
  \<open>URL.createObjectURL\<close> / \<open>URL.revokeObjectURL\<close>, \<open>alert\<close> and \<open>console.error\<close>.

  A thrown error is represented by its \<open>name\<close> property, the only part the code reads.
  Names are byte strings; \<open>toLowerCase\<close> maps the letters A to Z and leaves every other
  character alone, which decides membership in the allow-list exactly as the JavaScript
  method does (no other character lower-cases to a letter of an allowed extension).
\<close>

type_synonym js_error = string
type_synonym blob = nat
type_synonym object_url = nat

datatype file_handle = FileHandle (hname: string) (getFile: "js_error + blob")

text \<open>
  A directory handle: its name, the entries its asynchronous iterator \<open>values()\<close> yields,
  in order, and the error the iterator throws after them, if any.
\<close>

datatype dir_handle = DirHandle (dname: string) (dvalues: "entry list") (dthrows: "js_error option")
  and entry = FileEntry file_handle | DirEntry dir_handle

record item =
  item_handle :: file_handle
  item_name :: string

record image =
  img_name :: string
  img_url :: object_url
  img_handle :: file_handle

record transform =
  scale :: real
  positionX :: real
  positionY :: real

record app_state =
  images :: "image list"
  selectedIndex :: "int option"
  loading :: bool
  zoomStates :: "int \<rightharpoonup> transform"
  transformRef :: "transform option"
  nextUrl :: object_url
  revoked :: "object_url list"
  alerts :: "string list"
  console :: "js_error list"

section \<open>The scanner\<close>

text \<open>\<open>name.split('.')\<close>: never empty, one more piece than there are separators.\<close>

fun js_split :: "char \<Rightarrow> string \<Rightarrow> string list" where
  "js_split sep [] = [[]]"
| "js_split sep (c # cs) =
     (if c = sep then [] # js_split sep cs
      else (case js_split sep cs of
              [] \<Rightarrow> [[c]]
            | w # ws \<Rightarrow> (c # w) # ws))"

definition toLowerCase_char :: "char \<Rightarrow> char" where
  "toLowerCase_char c =
     (case map_of (zip ''ABCDEFGHIJKLMNOPQRSTUVWXYZ'' ''abcdefghijklmnopqrstuvwxyz'') c of
        Some l \<Rightarrow> l
      | None \<Rightarrow> c)"

definition toLowerCase :: "string \<Rightarrow> string" where
  "toLowerCase s = map toLowerCase_char s"

definition allowedExt :: "string set" where
  "allowedExt = {''jpg'', ''jpeg'', ''png'', ''gif'', ''webp'', ''bmp''}"

text \<open>
  \<open>entry.name.split('.').pop().toLowerCase()\<close>.  \<open>pop\<close> takes the last piece; the array is
  never empty (lemma \<open>js_split_not_Nil\<close>), so \<open>last\<close> is the piece popped.
\<close>

definition ext_of :: "string \<Rightarrow> string" where
  "ext_of n = toLowerCase (last (js_split CHR ''.'' n))"

text \<open>
  \<open>scanDirectory\<close> with the array \<open>imageFiles\<close> it pushes to passed along.  \<open>scanEntries\<close> is
  the \<open>for await\<close> loop over \<open>handle.values()\<close>; an error thrown by an inner scan or by the
  iterator leaves the function (\<open>Inl\<close>).
\<close>

fun scanDirectory :: "dir_handle \<Rightarrow> item list \<Rightarrow> js_error + item list"
  and scanEntries :: "entry list \<Rightarrow> js_error option \<Rightarrow> item list \<Rightarrow> js_error + item list" where
  "scanDirectory (DirHandle n es thr) imageFiles = scanEntries es thr imageFiles"
| "scanEntries [] thr imageFiles = (case thr of None \<Rightarrow> Inr imageFiles | Some e \<Rightarrow> Inl e)"
| "scanEntries (FileEntry h # es) thr imageFiles =
     (if ext_of (hname h) \<in> allowedExt
      then scanEntries es thr (imageFiles @ [\<lparr>item_handle = h, item_name = hname h\<rparr>])
      else scanEntries es thr imageFiles)"
| "scanEntries (DirEntry d # es) thr imageFiles =
     (case scanDirectory d imageFiles of
        Inl e \<Rightarrow> Inl e
      | Inr imageFiles' \<Rightarrow> scanEntries es thr imageFiles')"

text \<open>
  What the scanner is specified against: the files of a tree at any depth, and the trees
  whose iterators never throw.
\<close>

inductive in_dir :: "dir_handle \<Rightarrow> file_handle \<Rightarrow> bool"
  and in_entries :: "entry list \<Rightarrow> file_handle \<Rightarrow> bool" where
  in_dirI: "in_entries es h \<Longrightarrow> in_dir (DirHandle n es thr) h"
| here: "in_entries (FileEntry h # es) h"
| below: "in_dir d h \<Longrightarrow> in_entries (DirEntry d # es) h"
| later: "in_entries es h \<Longrightarrow> in_entries (e # es) h"

fun readable :: "dir_handle \<Rightarrow> bool"
  and readable_entries :: "entry list \<Rightarrow> bool" where
  "readable (DirHandle n es thr) = (thr = None \<and> readable_entries es)"
| "readable_entries [] = True"
| "readable_entries (FileEntry h # es) = readable_entries es"
| "readable_entries (DirEntry d # es) = (readable d \<and> readable_entries es)"

text \<open>
  The extension in the words of the specification: the substring after the final dot.  A
  name without a dot has no such substring.
\<close>

definition after_final_dot :: "string \<Rightarrow> string option" where
  "after_final_dot n =
     (if CHR ''.'' \<in> set n then Some (rev (takeWhile (\<lambda>c. c \<noteq> CHR ''.'') (rev n))) else None)"

definition has_allowed_extension :: "string \<Rightarrow> bool" where
  "has_allowed_extension n =
     (case after_final_dot n of
        None \<Rightarrow> False
      | Some e \<Rightarrow> toLowerCase e \<in> allowedExt)"

definition allowed_name :: "string \<Rightarrow> bool" where
  "allowed_name n =
     (case after_final_dot n of
        None \<Rightarrow> toLowerCase n \<in> allowedExt
      | Some e \<Rightarrow> toLowerCase e \<in> allowedExt)"

section \<open>Materialization\<close>

text \<open>
  \<open>Promise.all(imageFiles.map(async item => ...))\<close>.  Every callback is started; the
  \<open>getFile\<close> calls then complete in an order the program does not control.  The schedule
  lists the indices in the order their \<open>getFile\<close> settles (an index that never occurs
  never settles; a repeated index settles once).  On completion the callback creates the
  object URL and fulfils its slot; a failed \<open>getFile\<close> rejects its slot, and the first
  rejection is the one \<open>Promise.all\<close> reports.  The array \<open>Promise.all\<close> fulfils with is
  ordered by slot.
\<close>

datatype 'a promise = Pending | Fulfilled 'a | Rejected js_error

fun settle :: "item list \<Rightarrow> nat list \<Rightarrow>
    (js_error + image) option list \<times> js_error option \<times> object_url \<Rightarrow>
    (js_error + image) option list \<times> js_error option \<times> object_url" where
  "settle items [] st = st"
| "settle items (k # ks) (slots, rej, next) =
     (if k < length slots \<and> slots ! k = None
      then (case getFile (item_handle (items ! k)) of
              Inl e \<Rightarrow>
                settle items ks
                  (slots[k := Some (Inl e)], (case rej of None \<Rightarrow> Some e | Some e0 \<Rightarrow> Some e0), next)
            | Inr file \<Rightarrow>
                settle items ks
                  (slots[k := Some (Inr \<lparr>img_name = item_name (items ! k), img_url = next,
                                          img_handle = item_handle (items ! k)\<rparr>)],
                   rej, Suc next))
      else settle items ks (slots, rej, next))"

fun collect :: "(js_error + image) option list \<Rightarrow> image list option" where
  "collect [] = Some []"
| "collect (Some (Inr img) # slots) = map_option ((#) img) (collect slots)"
| "collect (_ # slots) = None"

definition promise_all :: "item list \<Rightarrow> nat list \<Rightarrow> object_url \<Rightarrow> image list promise \<times> object_url" where
  "promise_all items sched next =
     (case settle items sched (replicate (length items) None, None, next) of
        (slots, rej, next') \<Rightarrow>
          (case rej of
             Some e \<Rightarrow> (Rejected e, next')
           | None \<Rightarrow>
               (case collect slots of
                  Some imgs \<Rightarrow> (Fulfilled imgs, next')
                | None \<Rightarrow> (Pending, next'))))"

section \<open>The state store and the load\<close>

text \<open>
  \<open>setImages\<close> replaces the list; the effect with dependency \<open>[images]\<close> then runs the
  cleanup of the previous render, which revokes every URL of the previous list.
\<close>

definition setImages :: "image list \<Rightarrow> app_state \<Rightarrow> app_state" where
  "setImages new s = s\<lparr>images := new, revoked := revoked s @ map img_url (images s)\<rparr>"

definition setLoading :: "bool \<Rightarrow> app_state \<Rightarrow> app_state" where
  "setLoading b s = s\<lparr>loading := b\<rparr>"

definition unsupported_msg :: string where
  "unsupported_msg = ''Your browser might not support local file access. Try Chrome, Edge, or Opera.''"

text \<open>The \<open>catch\<close> block of \<open>handleOpenFolder\<close>.\<close>

definition catch_block :: "js_error \<Rightarrow> app_state \<Rightarrow> app_state" where
  "catch_block err s =
     (if err \<noteq> ''AbortError''
      then s\<lparr>console := console s @ [err], alerts := alerts s @ [unsupported_msg]\<rparr>
      else s)"

text \<open>
  The environment of one load: what \<open>window.showDirectoryPicker()\<close> answers (an error
  named \<open>AbortError\<close> when the user dismisses the prompt) and the order in which the
  \<open>getFile\<close> calls settle.
\<close>

record load_env =
  picker :: "js_error + dir_handle"
  schedule :: "nat list"

text \<open>
  \<open>handleOpenFolder\<close>, to the point where nothing of it is left to run.  When some
  \<open>getFile\<close> never settles and none fails, the function stays suspended at
  \<open>await Promise.all\<close> and its \<open>finally\<close> block has not run.
\<close>

definition handleOpenFolder :: "load_env \<Rightarrow> app_state \<Rightarrow> app_state" where
  "handleOpenFolder env s =
     (case picker env of
        Inl err \<Rightarrow> setLoading False (catch_block err s)
      | Inr dirHandle \<Rightarrow>
          (let s1 = (setImages [] (setLoading True s))\<lparr>zoomStates := Map.empty\<rparr> in
           case scanDirectory dirHandle [] of
             Inl err \<Rightarrow> setLoading False (catch_block err s1)
           | Inr imageFiles \<Rightarrow>
               (case promise_all imageFiles (schedule env) (nextUrl s1) of
                  (Pending, n) \<Rightarrow> s1\<lparr>nextUrl := n\<rparr>
                | (Rejected err, n) \<Rightarrow> setLoading False (catch_block err (s1\<lparr>nextUrl := n\<rparr>))
                | (Fulfilled loadedImages, n) \<Rightarrow>
                    setLoading False (setImages loadedImages (s1\<lparr>nextUrl := n\<rparr>)))))"

section \<open>Navigation\<close>

definition saveCurrentState :: "app_state \<Rightarrow> app_state" where
  "saveCurrentState s =
     (case transformRef s of
        None \<Rightarrow> s
      | Some t \<Rightarrow>
          (case selectedIndex s of
             None \<Rightarrow> s
           | Some i \<Rightarrow> s\<lparr>zoomStates := (zoomStates s)(i \<mapsto> t)\<rparr>))"

definition default_transform :: transform where
  "default_transform = \<lparr>scale = 1, positionX = 0, positionY = 0\<rparr>"

definition initialState :: "app_state \<Rightarrow> transform" where
  "initialState s =
     (case selectedIndex s of
        None \<Rightarrow> default_transform
      | Some i \<Rightarrow> (case zoomStates s i of Some t \<Rightarrow> t | None \<Rightarrow> default_transform))"

text \<open>
  \<open>setSelectedIndex\<close> followed by the render it causes.  The \<open>TransformWrapper\<close> has
  \<open>key={selectedIndex}\<close>: a new value unmounts the old viewer (\<open>transformRef.current\<close>
  becomes null when nothing is selected) and mounts a new one with \<open>initialState\<close>; an
  unchanged value leaves the mounted viewer as it is.
\<close>

definition setSelectedIndex :: "int option \<Rightarrow> app_state \<Rightarrow> app_state" where
  "setSelectedIndex v s =
     (if v = selectedIndex s then s
      else (let s' = s\<lparr>selectedIndex := v\<rparr> in
            s'\<lparr>transformRef := (case v of None \<Rightarrow> None | Some i \<Rightarrow> Some (initialState s'))\<rparr>))"

text \<open>In arithmetic JavaScript reads \<open>null\<close> as 0.\<close>

definition to_number :: "int option \<Rightarrow> int" where
  "to_number v = (case v of None \<Rightarrow> 0 | Some i \<Rightarrow> i)"

definition next_index :: "nat \<Rightarrow> int option \<Rightarrow> int option" where
  "next_index len prev = (if to_number prev + 1 < int len then Some (to_number prev + 1) else prev)"

definition prev_index :: "int option \<Rightarrow> int option" where
  "prev_index prev = (if to_number prev - 1 \<ge> 0 then Some (to_number prev - 1) else prev)"

definition handleNext :: "app_state \<Rightarrow> app_state" where
  "handleNext s =
     (let s' = saveCurrentState s
      in setSelectedIndex (next_index (length (images s')) (selectedIndex s')) s')"

definition handlePrev :: "app_state \<Rightarrow> app_state" where
  "handlePrev s =
     (let s' = saveCurrentState s
      in setSelectedIndex (prev_index (selectedIndex s')) s')"

text \<open>
  The key handler returns at once when nothing is selected.  Its three tests compare
  \<open>e.key\<close> with three different strings, so at most one of them applies.
\<close>

definition handleKeyDown :: "string \<Rightarrow> app_state \<Rightarrow> app_state" where
  "handleKeyDown key s =
     (if selectedIndex s = None then s
      else if key = ''ArrowRight'' then handleNext s
      else if key = ''ArrowLeft'' then handlePrev s
      else if key = ''Escape'' then setSelectedIndex None s
      else s)"

text \<open>
  The events of the user interface.  A card exists for every index of \<open>images\<close> and for no
  other; the viewer's buttons exist while something is selected, \<open>prev\<close> disabled at 0 and
  \<open>next\<close> at the last index; the open button is disabled while loading.  A gesture (or the
  library's own \<open>centerView\<close>) changes the transform of the mounted viewer.
\<close>

datatype event =
    CardClick nat
  | NextClick
  | PrevClick
  | CloseClick
  | KeyDown string
  | Gesture transform
  | OpenFolder load_env

fun step :: "event \<Rightarrow> app_state \<Rightarrow> app_state" where
  "step (CardClick k) s = (if k < length (images s) then setSelectedIndex (Some (int k)) s else s)"
| "step NextClick s =
     (if selectedIndex s \<noteq> None \<and> selectedIndex s \<noteq> Some (int (length (images s)) - 1)
      then handleNext s else s)"
| "step PrevClick s =
     (if selectedIndex s \<noteq> None \<and> selectedIndex s \<noteq> Some 0 then handlePrev s else s)"
| "step CloseClick s = (if selectedIndex s \<noteq> None then setSelectedIndex None s else s)"
| "step (KeyDown key) s = handleKeyDown key s"
| "step (Gesture t) s = (case transformRef s of None \<Rightarrow> s | Some _ \<Rightarrow> s\<lparr>transformRef := Some t\<rparr>)"
| "step (OpenFolder env) s = (if loading s then s else handleOpenFolder env s)"

fun run :: "event list \<Rightarrow> app_state \<Rightarrow> app_state" where
  "run [] s = s"
| "run (e # es) s = run es (step e s)"

text \<open>
  The invariant of the data model: a selection is an index of the list.  While something
  is selected the render reads \<open>images[selectedIndex].url\<close> and \<open>.name\<close> without a test.
\<close>

definition index_valid :: "app_state \<Rightarrow> bool" where
  "index_valid s =
     (case selectedIndex s of
        None \<Rightarrow> True
      | Some i \<Rightarrow> 0 \<le> i \<and> i < int (length (images s)))"

text \<open>
  \<open>lists_exactly P xs\<close>: the handles of \<open>xs\<close> are the files that satisfy \<open>P\<close> and pass the
  scanner's test, and every item carries the name of its handle.
\<close>

definition lists_exactly :: "(file_handle \<Rightarrow> bool) \<Rightarrow> item list \<Rightarrow> bool" where
  "lists_exactly P xs \<longleftrightarrow>
     (\<forall>h. h \<in> set (map item_handle xs) \<longleftrightarrow> P h \<and> ext_of (hname h) \<in> allowedExt) \<and>
     (\<forall>it \<in> set xs. item_name it = hname (item_handle it))"

text \<open>
  Example trees: the scenario of the specification (\<open>a.png\<close>, \<open>sub/b.jpg\<close>, \<open>sub/c.txt\<close>)
  with an upper-case extension added, and directories holding one file each.
\<close>

definition file_of :: "string \<Rightarrow> blob \<Rightarrow> file_handle" where
  "file_of n b = FileHandle n (Inr b)"

definition item_of :: "file_handle \<Rightarrow> item" where
  "item_of h = \<lparr>item_handle = h, item_name = hname h\<rparr>"

definition scenario_tree :: dir_handle where
  "scenario_tree =
     DirHandle ''root''
       [FileEntry (file_of ''a.png'' 0),
        DirEntry (DirHandle ''sub''
          [FileEntry (file_of ''b.jpg'' 1), FileEntry (file_of ''c.txt'' 2),
           DirEntry (DirHandle ''deep'' [FileEntry (file_of ''D.JPEG'' 3)] None)] None)]
       None"

definition single_file_dir :: "file_handle \<Rightarrow> dir_handle" where
  "single_file_dir h = DirHandle ''root'' [FileEntry h] None"

section \<open>Example states and auxiliary notions\<close>

text \<open>
  The state of a freshly mounted component, a gallery of three images, and the state of
  the scenario \<open>open(1)\<close>, set scale to 3.
\<close>

definition initial_state :: app_state where
  "initial_state =
     \<lparr>images = [], selectedIndex = None, loading = False, zoomStates = Map.empty,
      transformRef = None, nextUrl = 0, revoked = [], alerts = [], console = []\<rparr>"

definition image_of :: "string \<Rightarrow> nat \<Rightarrow> image" where
  "image_of n u = \<lparr>img_name = n, img_url = u, img_handle = file_of n u\<rparr>"

definition gallery3 :: app_state where
  "gallery3 =
     initial_state\<lparr>images := [image_of ''a.png'' 0, image_of ''b.jpg'' 1, image_of ''c.gif'' 2],
                    nextUrl := 3\<rparr>"

definition zoomed3 :: transform where
  "zoomed3 = \<lparr>scale = 3, positionX = 0, positionY = 0\<rparr>"

text \<open>
  The navigation events are all events but the load.  \<open>avoids i es s\<close>: running \<open>es\<close> from
  \<open>s\<close>, index \<open>i\<close> is selected at no point, the start and the end included.
\<close>

definition is_nav :: "event \<Rightarrow> bool" where
  "is_nav e = (case e of OpenFolder env \<Rightarrow> False | _ \<Rightarrow> True)"

fun avoids :: "int \<Rightarrow> event list \<Rightarrow> app_state \<Rightarrow> bool" where
  "avoids i [] s = (selectedIndex s \<noteq> Some i)"
| "avoids i (e # es) s = (selectedIndex s \<noteq> Some i \<and> avoids i es (step e s))"

definition viewing1 :: app_state where
  "viewing1 = run [CardClick 1, Gesture zoomed3] gallery3"

text \<open>
  The invariant of the slots while the \<open>getFile\<close> calls settle: a rejected slot holds the
  error of its item's \<open>getFile\<close>, a fulfilled slot holds the name and the handle of its
  item, whose \<open>getFile\<close> succeeded, and a rejection is recorded exactly when some slot is
  rejected.
\<close>

definition slot_ok :: "item list \<Rightarrow> nat \<Rightarrow> (js_error + image) option \<Rightarrow> bool" where
  "slot_ok items k sl =
     (case sl of
        None \<Rightarrow> True
      | Some (Inl e) \<Rightarrow> getFile (item_handle (items ! k)) = Inl e
      | Some (Inr img) \<Rightarrow>
          img_name img = item_name (items ! k) \<and> img_handle img = item_handle (items ! k) \<and>
          \<not> isl (getFile (item_handle (items ! k))))"

definition slots_inv :: "item list \<Rightarrow> (js_error + image) option list \<Rightarrow> js_error option \<Rightarrow> bool" where
  "slots_inv items slots rej \<longleftrightarrow>
     length slots = length items \<and>
     (\<forall>k < length items. slot_ok items k (slots ! k)) \<and>
     ((rej = None) = (\<forall>k < length items. \<forall>e. slots ! k \<noteq> Some (Inl e)))"

text \<open>
  Example loads: the viewer open at the last of three images; a directory with one image;
  a dismissed prompt; a refused prompt; a directory whose one image cannot be read, and one
  whose \<open>getFile\<close> throws an error that is itself named \<open>AbortError\<close>; the
  scenario tree with its files settling out of order, and with one of them never settling.
\<close>

definition viewing2 :: app_state where
  "viewing2 = run [CardClick 2] gallery3"

definition one_png_env :: load_env where
  "one_png_env = \<lparr>picker = Inr (single_file_dir (file_of ''z.png'' 9)), schedule = [0]\<rparr>"

definition cancel_env :: load_env where
  "cancel_env = \<lparr>picker = Inl ''AbortError'', schedule = []\<rparr>"

definition denied_env :: load_env where
  "denied_env = \<lparr>picker = Inl ''SecurityError'', schedule = []\<rparr>"

definition broken_file :: file_handle where
  "broken_file = FileHandle ''z.png'' (Inl ''NotFoundError'')"

definition broken_file_env :: load_env where
  "broken_file_env = \<lparr>picker = Inr (single_file_dir broken_file), schedule = [0]\<rparr>"

definition aborting_file :: file_handle where
  "aborting_file = FileHandle ''y.gif'' (Inl ''AbortError'')"

definition aborting_file_env :: load_env where
  "aborting_file_env = \<lparr>picker = Inr (single_file_dir aborting_file), schedule = [0]\<rparr>"

definition scenario_env :: load_env where
  "scenario_env = \<lparr>picker = Inr scenario_tree, schedule = [2, 0, 1]\<rparr>"

definition scenario_items :: "item list" where
  "scenario_items =
     [item_of (file_of ''a.png'' 0), item_of (file_of ''b.jpg'' 1), item_of (file_of ''D.JPEG'' 3)]"

definition stalled_env :: load_env where
  "stalled_env = \<lparr>picker = Inr scenario_tree, schedule = [2, 0]\<rparr>"

section \<open>The scanner: extension and traversal\<close>

lemma js_split_not_Nil: "js_split sep s \<noteq> []"
  by (induction s) (auto split: list.splits)

lemma js_split_no_sep: "sep \<notin> set s \<Longrightarrow> js_split sep s = [s]"
  by (induction s) auto

lemma length_js_split: "length (js_split sep s) = Suc (length (filter (\<lambda>c. c = sep) s))"
  by (induction s) (auto split: list.splits)

lemma last_js_split_sep: "sep \<notin> set b \<Longrightarrow> last (js_split sep (a @ sep # b)) = b"
proof (induction a)
  case Nil
  then show ?case by (simp add: js_split_no_sep)
next
  case (Cons c a)
  show ?case
  proof (cases "c = sep")
    case True
    with Cons show ?thesis by (simp add: js_split_not_Nil)
  next
    case False
    obtain w ws where ws: "js_split sep (a @ sep # b) = w # ws"
      using js_split_not_Nil by (cases "js_split sep (a @ sep # b)") auto
    have "length (js_split sep (a @ sep # b)) \<ge> 2"
      by (simp add: length_js_split)
    with ws have "ws \<noteq> []" by auto
    with Cons False ws show ?thesis by simp
  qed
qed

lemma after_final_dot_split:
  assumes "CHR ''.'' \<in> set n"
  obtains a b where "n = a @ CHR ''.'' # b" "CHR ''.'' \<notin> set b" "after_final_dot n = Some b"
proof -
  from assms obtain a b where n: "n = a @ CHR ''.'' # b" and b: "CHR ''.'' \<notin> set b"
    using split_list_last by fastforce
  have "takeWhile (\<lambda>c. c \<noteq> CHR ''.'') (rev b @ CHR ''.'' # rev a) = rev b"
    using b by (auto simp: takeWhile_tail)
  then have "after_final_dot n = Some b"
    using assms n by (simp add: after_final_dot_def)
  with n b show thesis by (rule that)
qed

text \<open>The popped piece is the substring after the final dot, or the whole name.\<close>

lemma ext_of_eq:
  "ext_of n = (case after_final_dot n of None \<Rightarrow> toLowerCase n | Some e \<Rightarrow> toLowerCase e)"
proof (cases "CHR ''.'' \<in> set n")
  case True
  then obtain a b where "n = a @ CHR ''.'' # b" "CHR ''.'' \<notin> set b" "after_final_dot n = Some b"
    by (rule after_final_dot_split)
  then show ?thesis by (simp add: ext_of_def last_js_split_sep)
next
  case False
  then show ?thesis by (simp add: ext_of_def after_final_dot_def js_split_no_sep)
qed

lemma allowed_name_iff: "allowed_name n \<longleftrightarrow> ext_of n \<in> allowedExt"
  by (simp add: allowed_name_def ext_of_eq split: option.splits)

inductive_simps in_entries_Nil [simp]: "in_entries [] h"
inductive_simps in_entries_File [simp]: "in_entries (FileEntry h' # es) h"
inductive_simps in_entries_Dir [simp]: "in_entries (DirEntry d # es) h"
inductive_simps in_dir_simp [simp]: "in_dir (DirHandle n es thr) h"

lemma scan_exact:
  "scanDirectory d acc = Inr out \<Longrightarrow> \<exists>xs. out = acc @ xs \<and> lists_exactly (in_dir d) xs"
  "scanEntries es thr acc = Inr out \<Longrightarrow> \<exists>xs. out = acc @ xs \<and> lists_exactly (in_entries es) xs"
proof (induction d acc and es thr acc arbitrary: out and out rule: scanDirectory_scanEntries.induct)
  case (1 n es thr imageFiles)
  then show ?case by (simp add: lists_exactly_def)
next
  case (2 thr imageFiles)
  then show ?case by (simp add: lists_exactly_def split: option.splits)
next
  case (3 h es thr imageFiles)
  show ?case
  proof (cases "ext_of (hname h) \<in> allowedExt")
    case True
    with 3 obtain xs where "out = (imageFiles @ [\<lparr>item_handle = h, item_name = hname h\<rparr>]) @ xs"
      "lists_exactly (in_entries es) xs" by fastforce
    with True show ?thesis
      by (intro exI [of _ "\<lparr>item_handle = h, item_name = hname h\<rparr> # xs"])
         (auto simp: lists_exactly_def)
  next
    case False
    with 3 obtain xs where "out = imageFiles @ xs" "lists_exactly (in_entries es) xs" by fastforce
    with False show ?thesis
      by (intro exI [of _ xs]) (auto simp: lists_exactly_def)
  qed
next
  case (4 d es thr imageFiles)
  from "4.prems" obtain mid where mid: "scanDirectory d imageFiles = Inr mid"
    and rest: "scanEntries es thr mid = Inr out"
    by (auto split: sum.splits)
  from "4.IH"(1) [OF mid] obtain xs where xs: "mid = imageFiles @ xs" "lists_exactly (in_dir d) xs"
    by blast
  from "4.IH"(2) [OF mid rest] obtain ys where ys: "out = mid @ ys" "lists_exactly (in_entries es) ys"
    by blast
  from xs ys show ?case
    by (intro exI [of _ "xs @ ys"]) (auto simp: lists_exactly_def)
qed

text \<open>A tree whose iterators never throw is scanned to the end.\<close>

lemma scan_readable:
  "readable d \<Longrightarrow> \<exists>out. scanDirectory d acc = Inr out"
  "readable_entries es \<Longrightarrow> \<exists>out. scanEntries es None acc = Inr out"
proof (induction d and es arbitrary: acc and acc rule: readable_readable_entries.induct)
  case (1 n es thr)
  then show ?case by simp
next
  case 2
  show ?case by simp
next
  case (3 h es)
  then show ?case by simp
next
  case (4 d es)
  from 4 obtain mid where "scanDirectory d acc = Inr mid" by fastforce
  moreover from 4 obtain out where "scanEntries es None mid = Inr out" by fastforce
  ultimately show ?case by simp
qed

lemma scan_single_file:
  "scanDirectory (single_file_dir h) [] = Inr (if ext_of (hname h) \<in> allowedExt then [item_of h] else [])"
  by (simp add: single_file_dir_def item_of_def)

lemma hname_file_of: "hname (file_of n b) = n"
  by (simp add: file_of_def)

lemma ext_of_png: "ext_of ''png'' = ''png''"
  by (simp add: ext_of_def toLowerCase_def toLowerCase_char_def)

lemma ext_of_dot_jpg: "ext_of ''.jpg'' = ''jpg''"
  by (simp add: ext_of_def toLowerCase_def toLowerCase_char_def)

text \<open>
  Claim C1, as stated: the scanner's result holds exactly the files, at any depth, whose
  extension, the substring after the final dot compared without regard to case, is in
  the allow-list.  It fails for a file named \<open>png\<close>: the name has no dot, hence no
  substring after a final dot, and the scanner lists the file.
\<close>

theorem scan_dotless_counterexample:
  "scanDirectory (single_file_dir (file_of ''png'' 0)) [] = Inr [item_of (file_of ''png'' 0)] \<and>
   in_dir (single_file_dir (file_of ''png'' 0)) (file_of ''png'' 0) \<and>
   after_final_dot (hname (file_of ''png'' 0)) = None \<and>
   \<not> has_allowed_extension (hname (file_of ''png'' 0))"
proof -
  have "scanDirectory (single_file_dir (file_of ''png'' 0)) [] = Inr [item_of (file_of ''png'' 0)]"
    by (simp add: scan_single_file hname_file_of ext_of_png allowedExt_def)
  moreover have "in_dir (single_file_dir (file_of ''png'' 0)) (file_of ''png'' 0)"
    by (simp add: single_file_dir_def)
  moreover have "after_final_dot (hname (file_of ''png'' 0)) = None"
    by (simp add: hname_file_of after_final_dot_def)
  ultimately show ?thesis
    by (simp add: has_allowed_extension_def)
qed

text \<open>
  Claim C1, amended: for every directory tree whose listing succeeds, the scanner's
  result holds exactly the files, at any depth, whose extension is in the allow-list
  \<open>{jpg, jpeg, png, gif, webp, bmp}\<close>, where the extension is the substring after the final
  dot or, for a name without a dot, the whole name, compared without regard to case; every
  listed item carries the name of its file.
\<close>

theorem scanDirectory_exact:
  assumes "readable d"
  shows "\<exists>imageFiles. scanDirectory d [] = Inr imageFiles \<and>
           (\<forall>h. h \<in> set (map item_handle imageFiles) \<longleftrightarrow> in_dir d h \<and> allowed_name (hname h)) \<and>
           (\<forall>it \<in> set imageFiles. item_name it = hname (item_handle it))"
proof -
  from assms obtain out where out: "scanDirectory d [] = Inr out"
    using scan_readable(1) by blast
  from scan_exact(1) [OF out] have "lists_exactly (in_dir d) out" by simp
  with out show ?thesis
    by (simp add: lists_exactly_def allowed_name_iff)
qed

theorem scanDirectory_exact_witness:
  "readable scenario_tree \<and>
   (\<exists>imageFiles. scanDirectory scenario_tree [] = Inr imageFiles \<and>
      (\<forall>h. h \<in> set (map item_handle imageFiles) \<longleftrightarrow>
            in_dir scenario_tree h \<and> allowed_name (hname h)) \<and>
      (\<forall>it \<in> set imageFiles. item_name it = hname (item_handle it)))"
proof -
  have r: "readable scenario_tree" by (simp add: scenario_tree_def)
  from scanDirectory_exact [OF r] r show ?thesis by simp
qed

text \<open>
  Claim C10: for a file whose name has no dot the scanner takes the whole name as the
  extension, so the file is listed exactly when its lower-cased name is in the allow-list;
  a file named \<open>png\<close> is listed, and so is the dotfile \<open>.jpg\<close>, whose substring after the
  final dot is \<open>jpg\<close>.
\<close>

theorem dotless_name_is_extension:
  "(CHR ''.'' \<notin> set (hname h) \<longrightarrow>
      ext_of (hname h) = toLowerCase (hname h) \<and>
      scanDirectory (single_file_dir h) [] =
        Inr (if toLowerCase (hname h) \<in> allowedExt then [item_of h] else [])) \<and>
   scanDirectory (single_file_dir (file_of ''png'' 0)) [] = Inr [item_of (file_of ''png'' 0)] \<and>
   after_final_dot ''.jpg'' = Some ''jpg'' \<and>
   scanDirectory (single_file_dir (file_of ''.jpg'' 0)) [] = Inr [item_of (file_of ''.jpg'' 0)]"
proof -
  have "ext_of (hname h) = toLowerCase (hname h)" if "CHR ''.'' \<notin> set (hname h)"
    using that by (simp add: ext_of_def js_split_no_sep)
  moreover have "after_final_dot ''.jpg'' = Some ''jpg''"
    by (simp add: after_final_dot_def)
  ultimately show ?thesis
    by (simp add: scan_single_file hname_file_of ext_of_png ext_of_dot_jpg allowedExt_def)
qed

theorem dotless_name_is_extension_witness:
  "CHR ''.'' \<notin> set (hname (file_of ''BMP'' 7)) \<and>
   ext_of (hname (file_of ''BMP'' 7)) = ''bmp'' \<and>
   scanDirectory (single_file_dir (file_of ''BMP'' 7)) [] = Inr [item_of (file_of ''BMP'' 7)]"
  using dotless_name_is_extension [of "file_of ''BMP'' 7"]
  by (simp add: hname_file_of toLowerCase_def toLowerCase_char_def allowedExt_def)

section \<open>Navigation: clamping and the zoom memory\<close>

lemma saveCurrentState_simps [simp]:
  "selectedIndex (saveCurrentState s) = selectedIndex s"
  "images (saveCurrentState s) = images s"
  "transformRef (saveCurrentState s) = transformRef s"
  by (simp_all add: saveCurrentState_def split: option.splits)

lemma setSelectedIndex_simps [simp]:
  "selectedIndex (setSelectedIndex v s) = v"
  "images (setSelectedIndex v s) = images s"
  "zoomStates (setSelectedIndex v s) = zoomStates s"
  by (simp_all add: setSelectedIndex_def Let_def)

lemma handle_images [simp]:
  "images (handleNext s) = images s" "images (handlePrev s) = images s"
  by (simp_all add: handleNext_def handlePrev_def Let_def)

lemma handleNext_index:
  "selectedIndex (handleNext s) = next_index (length (images s)) (selectedIndex s)"
  by (simp add: handleNext_def Let_def)

lemma handlePrev_index:
  "selectedIndex (handlePrev s) = prev_index (selectedIndex s)"
  by (simp add: handlePrev_def Let_def)

lemma funpow_next_last:
  "selectedIndex s = Some (int (length (images s)) - 1) \<Longrightarrow>
   selectedIndex ((handleNext ^^ k) s) = Some (int (length (images s)) - 1) \<and>
   images ((handleNext ^^ k) s) = images s"
  by (induction k) (simp_all add: handleNext_index next_index_def to_number_def)

lemma funpow_prev_first:
  "selectedIndex s = Some 0 \<Longrightarrow> selectedIndex ((handlePrev ^^ k) s) = Some 0"
  by (induction k) (simp_all add: handlePrev_index prev_index_def to_number_def)

text \<open>
  Claim C2: for a list of length \<open>L\<close> and a selected index \<open>i\<close> (an index of the list),
  \<open>next\<close> selects \<open>min (i + 1) (L - 1)\<close> and \<open>prev\<close> selects \<open>max (i - 1) 0\<close>; any number of
  \<open>next\<close> from \<open>L - 1\<close> stays at \<open>L - 1\<close>, any number of \<open>prev\<close> from 0 stays at 0.
\<close>

theorem next_prev_clamped:
  assumes "selectedIndex s = Some i" and "0 \<le> i" and "i < int (length (images s))"
  shows "selectedIndex (handleNext s) = Some (min (i + 1) (int (length (images s)) - 1)) \<and>
         selectedIndex (handlePrev s) = Some (max (i - 1) 0) \<and>
         (i = int (length (images s)) - 1 \<longrightarrow>
            selectedIndex ((handleNext ^^ k) s) = Some (int (length (images s)) - 1)) \<and>
         (i = 0 \<longrightarrow> selectedIndex ((handlePrev ^^ k) s) = Some 0)"
  using assms
  by (auto simp: handleNext_index handlePrev_index next_index_def prev_index_def to_number_def
      funpow_next_last funpow_prev_first)

theorem next_prev_clamped_witness:
  "selectedIndex (gallery3\<lparr>selectedIndex := Some 2\<rparr>) = Some 2 \<and>
   selectedIndex (handleNext (gallery3\<lparr>selectedIndex := Some 2\<rparr>)) = Some 2 \<and>
   selectedIndex (handlePrev (gallery3\<lparr>selectedIndex := Some 2\<rparr>)) = Some 1 \<and>
   selectedIndex ((handleNext ^^ 3) (gallery3\<lparr>selectedIndex := Some 2\<rparr>)) = Some 2 \<and>
   selectedIndex (gallery3\<lparr>selectedIndex := Some 0\<rparr>) = Some 0 \<and>
   selectedIndex (handleNext (gallery3\<lparr>selectedIndex := Some 0\<rparr>)) = Some 1 \<and>
   selectedIndex (handlePrev (gallery3\<lparr>selectedIndex := Some 0\<rparr>)) = Some 0 \<and>
   selectedIndex ((handlePrev ^^ 3) (gallery3\<lparr>selectedIndex := Some 0\<rparr>)) = Some 0"
  using next_prev_clamped [of "gallery3\<lparr>selectedIndex := Some 2\<rparr>" 2 3]
    next_prev_clamped [of "gallery3\<lparr>selectedIndex := Some 0\<rparr>" 0 3]
  by (simp add: gallery3_def initial_state_def)


lemma saveCurrentState_zoom_other:
  "selectedIndex s \<noteq> Some i \<Longrightarrow> zoomStates (saveCurrentState s) i = zoomStates s i"
  by (simp add: saveCurrentState_def split: option.splits)

lemma saveCurrentState_zoom_here:
  "selectedIndex s = Some i \<Longrightarrow> transformRef s = Some p \<Longrightarrow> zoomStates (saveCurrentState s) i = Some p"
  by (simp add: saveCurrentState_def)

lemma handle_zoom_other:
  assumes "selectedIndex s \<noteq> Some i"
  shows "zoomStates (handleNext s) i = zoomStates s i" "zoomStates (handlePrev s) i = zoomStates s i"
  using assms by (simp_all add: handleNext_def handlePrev_def Let_def saveCurrentState_zoom_other)

lemma handle_zoom_here:
  assumes "selectedIndex s = Some i" "transformRef s = Some p"
  shows "zoomStates (handleNext s) i = Some p" "zoomStates (handlePrev s) i = Some p"
  using assms by (simp_all add: handleNext_def handlePrev_def Let_def saveCurrentState_zoom_here)

lemma step_zoom_other:
  assumes "is_nav e" "selectedIndex s \<noteq> Some i"
  shows "zoomStates (step e s) i = zoomStates s i"
  using assms
  by (cases e) (auto simp: is_nav_def handleKeyDown_def handle_zoom_other split: option.splits)

lemma run_zoom_other:
  "\<forall>e \<in> set es. is_nav e \<Longrightarrow> avoids i es s \<Longrightarrow>
   zoomStates (run es s) i = zoomStates s i \<and> selectedIndex (run es s) \<noteq> Some i"
  by (induction es arbitrary: s) (auto simp: step_zoom_other)

lemma mount_restores:
  assumes "selectedIndex s \<noteq> Some i" "zoomStates s i = Some p"
  shows "transformRef (setSelectedIndex (Some i) s) = Some p"
  using assms by (auto simp: setSelectedIndex_def Let_def initialState_def)

lemma setSelectedIndex_arrive:
  assumes "selectedIndex s \<noteq> Some i" "zoomStates s i = Some p" "v = Some i"
  shows "transformRef (setSelectedIndex v s) = Some p"
  using assms mount_restores by simp

lemma handle_arrive:
  assumes "selectedIndex s \<noteq> Some i" "zoomStates s i = Some p"
  shows "selectedIndex (handleNext s) = Some i \<Longrightarrow> transformRef (handleNext s) = Some p"
    and "selectedIndex (handlePrev s) = Some i \<Longrightarrow> transformRef (handlePrev s) = Some p"
proof -
  have z: "zoomStates (saveCurrentState s) i = Some p"
    using assms by (simp add: saveCurrentState_zoom_other)
  have n: "selectedIndex (saveCurrentState s) \<noteq> Some i" using assms by simp
  show "selectedIndex (handleNext s) = Some i \<Longrightarrow> transformRef (handleNext s) = Some p"
    using setSelectedIndex_arrive [OF n z] by (simp add: handleNext_def Let_def)
  show "selectedIndex (handlePrev s) = Some i \<Longrightarrow> transformRef (handlePrev s) = Some p"
    using setSelectedIndex_arrive [OF n z] by (simp add: handlePrev_def Let_def)
qed

lemma step_arrive:
  assumes "is_nav e" "selectedIndex s \<noteq> Some i" "zoomStates s i = Some p"
    and "selectedIndex (step e s) = Some i"
  shows "transformRef (step e s) = Some p"
proof (cases e)
  case (CardClick k)
  with assms show ?thesis by (auto simp: mount_restores split: if_splits)
next
  case NextClick
  with assms show ?thesis by (auto simp: handle_arrive split: if_splits)
next
  case PrevClick
  with assms show ?thesis by (auto simp: handle_arrive split: if_splits)
next
  case CloseClick
  with assms show ?thesis by (auto split: if_splits)
next
  case (KeyDown key)
  with assms show ?thesis by (auto simp: handleKeyDown_def handle_arrive split: if_splits)
next
  case (Gesture t)
  with assms show ?thesis by (auto split: option.splits)
next
  case (OpenFolder env)
  with assms show ?thesis by (simp add: is_nav_def)
qed

lemma step_leave:
  assumes "selectedIndex s = Some i" "transformRef s = Some p"
    and "e \<in> {NextClick, PrevClick, KeyDown ''ArrowRight'', KeyDown ''ArrowLeft''}"
    and "selectedIndex (step e s) \<noteq> Some i"
  shows "zoomStates (step e s) i = Some p"
  using assms by (auto simp: handleKeyDown_def handle_zoom_here split: if_splits)

text \<open>
  Claim C3: the viewer shows index \<open>i\<close> with parameters \<open>p\<close>; the user leaves \<open>i\<close> by \<open>next\<close>
  or \<open>prev\<close> (button or arrow key), navigates anywhere but to \<open>i\<close>, and then an event
  selects \<open>i\<close> again.  The viewer mounted for \<open>i\<close> starts with \<open>p\<close>, not with the defaults.
\<close>

theorem zoom_round_trip:
  assumes "selectedIndex s = Some i" and "transformRef s = Some p"
    and "e \<in> {NextClick, PrevClick, KeyDown ''ArrowRight'', KeyDown ''ArrowLeft''}"
    and "\<forall>x \<in> set es. is_nav x" and "avoids i es (step e s)"
    and "is_nav e'" and "selectedIndex (step e' (run es (step e s))) = Some i"
  shows "transformRef (step e' (run es (step e s))) = Some p"
proof -
  from assms(5) have away: "selectedIndex (step e s) \<noteq> Some i" by (cases es) auto
  from step_leave [OF assms(1-3) away] have "zoomStates (step e s) i = Some p" .
  with run_zoom_other [OF assms(4,5)]
  have "zoomStates (run es (step e s)) i = Some p" "selectedIndex (run es (step e s)) \<noteq> Some i"
    by simp_all
  with assms(6,7) show ?thesis by (simp add: step_arrive)
qed

lemma viewing1_eq:
  "viewing1 = gallery3\<lparr>selectedIndex := Some 1, transformRef := Some zoomed3\<rparr>"
  by (simp add: viewing1_def gallery3_def initial_state_def setSelectedIndex_def Let_def)

theorem zoom_round_trip_witness:
  "selectedIndex viewing1 = Some 1 \<and> transformRef viewing1 = Some zoomed3 \<and>
   avoids 1 [CloseClick, CardClick 2] (step NextClick viewing1) \<and>
   selectedIndex (step PrevClick (run [CloseClick, CardClick 2] (step NextClick viewing1))) = Some 1 \<and>
   transformRef (step PrevClick (run [CloseClick, CardClick 2] (step NextClick viewing1))) = Some zoomed3 \<and>
   scale zoomed3 = 3 \<and> scale default_transform = 1"
proof -
  note defs = viewing1_eq gallery3_def initial_state_def handleNext_def handlePrev_def
    saveCurrentState_def setSelectedIndex_def next_index_def prev_index_def to_number_def
    initialState_def Let_def
  have h1: "selectedIndex viewing1 = Some 1" by (simp add: viewing1_eq)
  have h2: "transformRef viewing1 = Some zoomed3" by (simp add: viewing1_eq)
  have h3: "NextClick \<in> {NextClick, PrevClick, KeyDown ''ArrowRight'', KeyDown ''ArrowLeft''}"
    by simp
  have h4: "\<forall>x \<in> set [CloseClick, CardClick 2]. is_nav x" by (simp add: is_nav_def)
  have h5: "avoids 1 [CloseClick, CardClick 2] (step NextClick viewing1)" by (simp add: defs)
  have h6: "is_nav PrevClick" by (simp add: is_nav_def)
  have h7: "selectedIndex (step PrevClick (run [CloseClick, CardClick 2] (step NextClick viewing1))) = Some 1"
    by (simp add: defs)
  from zoom_round_trip [OF h1 h2 h3 h4 h5 h6 h7] h1 h2 h5 h7 show ?thesis
    by (simp add: zoomed3_def default_transform_def)
qed

text \<open>
  Claim C4, as stated: every way of navigating away from \<open>i\<close>, the close transition
  included, stores the viewer's parameters under \<open>i\<close>.  It fails for both close
  transitions: after \<open>open(1)\<close>, scale 3 and close (button or Escape) there is no entry for
  index 1, and opening index 1 again starts from the defaults.
\<close>

theorem close_does_not_save_counterexample:
  "selectedIndex viewing1 = Some 1 \<and> transformRef viewing1 = Some zoomed3 \<and>
   selectedIndex (step CloseClick viewing1) = None \<and>
   zoomStates (step CloseClick viewing1) 1 = None \<and>
   selectedIndex (step (KeyDown ''Escape'') viewing1) = None \<and>
   zoomStates (step (KeyDown ''Escape'') viewing1) 1 = None \<and>
   transformRef (step (CardClick 1) (step CloseClick viewing1)) = Some default_transform"
  by (simp add: viewing1_eq gallery3_def initial_state_def setSelectedIndex_def Let_def
      handleKeyDown_def initialState_def)

text \<open>
  Claim C4, amended: \<open>next\<close> and \<open>prev\<close> create or overwrite the entry of the selected index
  \<open>i\<close> with the viewer's current parameters and change no other entry; the close
  transition (close button or Escape) leaves the zoom memory as it is.
\<close>

theorem zoom_saved_on_next_prev_only:
  assumes "selectedIndex s = Some i" and "transformRef s = Some p"
  shows "zoomStates (handleNext s) = (zoomStates s)(i \<mapsto> p) \<and>
         zoomStates (handlePrev s) = (zoomStates s)(i \<mapsto> p) \<and>
         zoomStates (step CloseClick s) = zoomStates s \<and>
         zoomStates (step (KeyDown ''Escape'') s) = zoomStates s"
  using assms
  by (simp add: handleNext_def handlePrev_def Let_def saveCurrentState_def handleKeyDown_def)

theorem zoom_saved_on_next_prev_only_witness:
  "selectedIndex viewing1 = Some 1 \<and> transformRef viewing1 = Some zoomed3 \<and>
   zoomStates (handleNext viewing1) 1 = Some zoomed3 \<and>
   zoomStates (handlePrev viewing1) 1 = Some zoomed3 \<and>
   zoomStates (step CloseClick viewing1) 1 = zoomStates viewing1 1 \<and>
   zoomStates (step (KeyDown ''Escape'') viewing1) 1 = zoomStates viewing1 1"
proof -
  have h1: "selectedIndex viewing1 = Some 1" by (simp add: viewing1_eq)
  have h2: "transformRef viewing1 = Some zoomed3" by (simp add: viewing1_eq)
  from zoom_saved_on_next_prev_only [OF h1 h2] h1 h2 show ?thesis by simp
qed

section \<open>Materialization and the load\<close>

lemma slots_inv_reject:
  assumes "slots_inv items slots rej" "k < length slots" "slots ! k = None"
    "getFile (item_handle (items ! k)) = Inl e"
  shows "slots_inv items (slots[k := Some (Inl e)]) (case rej of None \<Rightarrow> Some e | Some e0 \<Rightarrow> Some e0)"
  using assms
  by (auto simp: slots_inv_def slot_ok_def nth_list_update split: option.splits)

lemma slots_inv_fulfil:
  assumes "slots_inv items slots rej" "k < length slots" "slots ! k = None"
    "getFile (item_handle (items ! k)) = Inr f"
  shows "slots_inv items (slots[k := Some (Inr \<lparr>img_name = item_name (items ! k), img_url = u,
            img_handle = item_handle (items ! k)\<rparr>)]) rej"
proof -
  let ?img = "\<lparr>img_name = item_name (items ! k), img_url = u, img_handle = item_handle (items ! k)\<rparr>"
  have same: "(slots[k := Some (Inr ?img)] ! j = Some (Inl e)) = (slots ! j = Some (Inl e))"
    if "j < length items" for j e
    using assms(2,3) by (cases "j = k") simp_all
  have ok: "slot_ok items j (slots[k := Some (Inr ?img)] ! j)" if "j < length items" for j
    using assms that by (cases "j = k") (simp_all add: slots_inv_def slot_ok_def)
  from assms(1) same ok show ?thesis
    by (simp add: slots_inv_def)
qed

lemma settle_inv:
  assumes "settle items ks (slots, rej, next) = (slots', rej', next')" "slots_inv items slots rej"
  shows "slots_inv items slots' rej' \<and>
         (\<forall>k < length items. slots' ! k = None \<longleftrightarrow> slots ! k = None \<and> k \<notin> set ks)"
  using assms
proof (induction ks arbitrary: slots rej "next")
  case Nil
  then show ?case by simp
next
  case (Cons k ks)
  show ?case
  proof (cases "k < length slots \<and> slots ! k = None")
    case False
    with Cons.prems have "settle items ks (slots, rej, next) = (slots', rej', next')" by auto
    from Cons.IH [OF this Cons.prems(2)] False Cons.prems(2) show ?thesis
      by (auto simp: slots_inv_def)
  next
    case True
    show ?thesis
    proof (cases "getFile (item_handle (items ! k))")
      case (Inl e)
      with True Cons.prems have "settle items ks (slots[k := Some (Inl e)],
          (case rej of None \<Rightarrow> Some e | Some e0 \<Rightarrow> Some e0), next) = (slots', rej', next')"
        by simp
      from Cons.IH [OF this slots_inv_reject] Cons.prems(2) True Inl show ?thesis
        by (auto simp: nth_list_update slots_inv_def)
    next
      case (Inr f)
      with True Cons.prems have "settle items ks (slots[k := Some (Inr \<lparr>img_name = item_name (items ! k),
           img_url = next, img_handle = item_handle (items ! k)\<rparr>)], rej, Suc next) = (slots', rej', next')"
        by simp
      from Cons.IH [OF this slots_inv_fulfil] Cons.prems(2) True Inr show ?thesis
        by (auto simp: nth_list_update slots_inv_def)
    qed
  qed
qed

lemma collect_Some:
  "collect slots = Some imgs \<Longrightarrow>
   length imgs = length slots \<and> (\<forall>k < length slots. slots ! k = Some (Inr (imgs ! k)))"
proof (induction slots arbitrary: imgs rule: collect.induct)
  case 1
  then show ?case by simp
next
  case (2 img slots)
  then obtain rest where "collect slots = Some rest" "imgs = img # rest" by auto
  with 2 show ?case by (auto simp: nth_Cons')
qed simp_all

lemma collect_all:
  "\<forall>k < length slots. \<exists>img. slots ! k = Some (Inr img) \<Longrightarrow> \<exists>imgs. collect slots = Some imgs"
proof (induction slots)
  case Nil
  show ?case by simp
next
  case (Cons a slots)
  have "0 < length (a # slots)" by simp
  with Cons.prems have "\<exists>img. (a # slots) ! 0 = Some (Inr img)" by blast
  then obtain img where a: "a = Some (Inr img)" by auto
  have "\<exists>img. slots ! k = Some (Inr img)" if "k < length slots" for k
  proof -
    from that have "Suc k < length (a # slots)" by simp
    with Cons.prems have "\<exists>img. (a # slots) ! Suc k = Some (Inr img)" by blast
    then show ?thesis by simp
  qed
  then have "\<exists>imgs. collect slots = Some imgs" using Cons.IH by blast
  with a show ?case by auto
qed

lemma slots_inv_init: "slots_inv items (replicate (length items) None) None"
  by (simp add: slots_inv_def slot_ok_def)


lemma promise_all_cases:
  obtains (run) slots rej n' where
    "settle items sched (replicate (length items) None, None, n) = (slots, rej, n')"
    "slots_inv items slots rej"
    "\<forall>k < length items. slots ! k = None \<longleftrightarrow> k \<notin> set sched"
    "promise_all items sched n =
       (case rej of
          Some e \<Rightarrow> (Rejected e, n')
        | None \<Rightarrow> (case collect slots of Some imgs \<Rightarrow> (Fulfilled imgs, n') | None \<Rightarrow> (Pending, n')))"
proof -
  obtain slots rej n' where st:
    "settle items sched (replicate (length items) None, None, n) = (slots, rej, n')"
    by (cases "settle items sched (replicate (length items) None, None, n)") auto
  from settle_inv [OF st slots_inv_init]
  have "slots_inv items slots rej" "\<forall>k < length items. slots ! k = None \<longleftrightarrow> k \<notin> set sched"
    by simp_all
  moreover from st have "promise_all items sched n =
       (case rej of
          Some e \<Rightarrow> (Rejected e, n')
        | None \<Rightarrow> (case collect slots of Some imgs \<Rightarrow> (Fulfilled imgs, n') | None \<Rightarrow> (Pending, n')))"
    by (simp add: promise_all_def)
  ultimately show thesis using st by (rule that [rotated 1])
qed

text \<open>A fulfilled \<open>Promise.all\<close> gives one image per item, in the order of the items.\<close>

lemma promise_all_Fulfilled:
  assumes "promise_all items sched n = (Fulfilled imgs, n')"
  shows "length imgs = length items \<and>
         (\<forall>k < length items. img_name (imgs ! k) = item_name (items ! k) \<and>
                              img_handle (imgs ! k) = item_handle (items ! k)) \<and>
         (\<forall>k < length items. k \<in> set sched \<and> \<not> isl (getFile (item_handle (items ! k))))"
proof (cases rule: promise_all_cases [of items sched n])
  case (run slots rej m)
  with assms have c: "collect slots = Some imgs"
    by (auto split: option.splits)
  from collect_Some [OF c] run(2)
  have len: "length imgs = length items"
    and nth: "\<forall>k < length items. slots ! k = Some (Inr (imgs ! k))"
    by (simp_all add: slots_inv_def)
  have "img_name (imgs ! k) = item_name (items ! k) \<and>
        img_handle (imgs ! k) = item_handle (items ! k) \<and>
        k \<in> set sched \<and> \<not> isl (getFile (item_handle (items ! k)))" if "k < length items" for k
  proof -
    from run(2) that have "slot_ok items k (slots ! k)" by (simp add: slots_inv_def)
    moreover from nth that have "slots ! k = Some (Inr (imgs ! k))" by simp
    moreover from this run(3) that have "k \<in> set sched" by auto
    ultimately show ?thesis by (simp add: slot_ok_def)
  qed
  with len show ?thesis by simp
qed

lemma promise_all_succeeds:
  assumes "\<forall>k < length items. k \<in> set sched \<and> \<not> isl (getFile (item_handle (items ! k)))"
  shows "\<exists>imgs n'. promise_all items sched n = (Fulfilled imgs, n')"
proof (cases rule: promise_all_cases [of items sched n])
  case (run slots rej m)
  have full: "\<exists>img. slots ! k = Some (Inr img)" if "k < length items" for k
  proof -
    from run(3) assms that obtain r where r: "slots ! k = Some r" by auto
    from run(2) that have "slot_ok items k (slots ! k)" by (simp add: slots_inv_def)
    with r assms that show ?thesis by (cases r) (auto simp: slot_ok_def)
  qed
  then have "\<forall>k < length items. \<forall>e. slots ! k \<noteq> Some (Inl e)" by fastforce
  with run(2) have "rej = None" by (simp add: slots_inv_def)
  moreover from full run(2) obtain imgs where "collect slots = Some imgs"
    using collect_all [of slots] by (auto simp: slots_inv_def)
  ultimately show ?thesis using run(4) by simp
qed

lemma promise_all_rejects:
  assumes "k < length items" "k \<in> set sched" "isl (getFile (item_handle (items ! k)))"
  shows "\<exists>e n'. promise_all items sched n = (Rejected e, n')"
proof (cases rule: promise_all_cases [of items sched n])
  case (run slots rej m)
  from run(3) assms obtain r where r: "slots ! k = Some r" by auto
  from run(2) assms have "slot_ok items k (slots ! k)" by (simp add: slots_inv_def)
  with r assms obtain e where "slots ! k = Some (Inl e)" by (cases r) (auto simp: slot_ok_def)
  with run(2) assms(1) have "rej \<noteq> None" by (auto simp: slots_inv_def)
  with run(4) show ?thesis by auto
qed


lemma load_picker_failed:
  "picker env = Inl err \<Longrightarrow> handleOpenFolder env s = setLoading False (catch_block err s)"
  by (simp add: handleOpenFolder_def)

lemma load_scan_failed:
  assumes "picker env = Inr d" "scanDirectory d [] = Inl err"
  shows "handleOpenFolder env s =
     setLoading False (catch_block err
       (s\<lparr>loading := True, images := [], revoked := revoked s @ map img_url (images s),
          zoomStates := Map.empty\<rparr>))"
  using assms by (simp add: handleOpenFolder_def setImages_def setLoading_def)

lemma load_rejected:
  assumes "picker env = Inr d" "scanDirectory d [] = Inr items"
    "promise_all items (schedule env) (nextUrl s) = (Rejected err, n)"
  shows "handleOpenFolder env s =
     setLoading False (catch_block err
       (s\<lparr>loading := True, images := [], revoked := revoked s @ map img_url (images s),
          zoomStates := Map.empty, nextUrl := n\<rparr>))"
  using assms by (simp add: handleOpenFolder_def setImages_def setLoading_def)

lemma load_pending:
  assumes "picker env = Inr d" "scanDirectory d [] = Inr items"
    "promise_all items (schedule env) (nextUrl s) = (Pending, n)"
  shows "handleOpenFolder env s =
     s\<lparr>loading := True, images := [], revoked := revoked s @ map img_url (images s),
       zoomStates := Map.empty, nextUrl := n\<rparr>"
  using assms by (simp add: handleOpenFolder_def setImages_def setLoading_def)

lemma load_fulfilled:
  assumes "picker env = Inr d" "scanDirectory d [] = Inr items"
    "promise_all items (schedule env) (nextUrl s) = (Fulfilled imgs, n)"
  shows "handleOpenFolder env s =
     s\<lparr>loading := False, images := imgs, revoked := revoked s @ map img_url (images s),
       zoomStates := Map.empty, nextUrl := n\<rparr>"
  using assms by (simp add: handleOpenFolder_def setImages_def setLoading_def)

lemma catch_block_fields [simp]:
  "images (catch_block err s) = images s"
  "zoomStates (catch_block err s) = zoomStates s"
  "selectedIndex (catch_block err s) = selectedIndex s"
  "loading (catch_block err s) = loading s"
  "revoked (catch_block err s) = revoked s"
  by (simp_all add: catch_block_def)

lemma setLoading_fields [simp]:
  "images (setLoading b s) = images s"
  "zoomStates (setLoading b s) = zoomStates s"
  "selectedIndex (setLoading b s) = selectedIndex s"
  "loading (setLoading b s) = b"
  "revoked (setLoading b s) = revoked s"
  "alerts (setLoading b s) = alerts s"
  by (simp_all add: setLoading_def)

lemma promise_all_trichotomy:
  obtains (pending) n' where "promise_all items sched n = (Pending, n')"
  | (fulfilled) imgs n' where "promise_all items sched n = (Fulfilled imgs, n')"
  | (rejected) e n' where "promise_all items sched n = (Rejected e, n')"
proof (cases "promise_all items sched n")
  case (Pair p n')
  then show ?thesis by (cases p) (auto intro: that)
qed

text \<open>
  Claim C8: when the user dismisses the directory prompt (\<open>showDirectoryPicker\<close> throws an
  \<open>AbortError\<close>) the load changes nothing but the busy flag, which ends cleared: no alert,
  nothing logged, and the list, the zoom memory and the selection as before.  The open
  button is enabled only while the flag is clear, so the whole event leaves the state as
  it was.
\<close>

theorem cancel_is_silent_noop:
  assumes "picker env = Inl ''AbortError''"
  shows "handleOpenFolder env s = s\<lparr>loading := False\<rparr> \<and> step (OpenFolder env) s = s"
  using assms by (simp add: load_picker_failed catch_block_def setLoading_def)

theorem cancel_is_silent_noop_witness:
  "picker cancel_env = Inl ''AbortError'' \<and>
   handleOpenFolder cancel_env viewing1 = viewing1\<lparr>loading := False\<rparr> \<and>
   step (OpenFolder cancel_env) viewing1 = viewing1 \<and>
   alerts (handleOpenFolder cancel_env viewing1) = []"
proof -
  have h: "picker cancel_env = Inl ''AbortError''" by (simp add: cancel_env_def)
  from cancel_is_silent_noop [OF h, of viewing1] h show ?thesis
    by (simp add: viewing1_eq gallery3_def initial_state_def)
qed

text \<open>
  Claim C7, amended: a load that fails for a reason other than the user's cancellation
  of the prompt ends with the busy flag cleared.  When the prompt itself fails (with an
  error not named \<open>AbortError\<close>), the notice is shown and the list, the zoom memory and the
  selection are untouched.  When the scan or a materialization fails after the prompt was
  granted, the list and the zoom memory are empty and the URLs of the previous list are
  revoked, because the load cleared them when it began; the notice is shown exactly when
  the error thrown is not itself named \<open>AbortError\<close>.
\<close>

theorem failed_load_state:
  "(picker env = Inl err \<and> err \<noteq> ''AbortError'' \<longrightarrow>
      handleOpenFolder env s =
        s\<lparr>loading := False, console := console s @ [err],
          alerts := alerts s @ [unsupported_msg]\<rparr>) \<and>
   (\<forall>d. picker env = Inr d \<and>
        (scanDirectory d [] = Inl err \<or>
         (\<exists>items n. scanDirectory d [] = Inr items \<and>
            promise_all items (schedule env) (nextUrl s) = (Rejected err, n))) \<longrightarrow>
      images (handleOpenFolder env s) = [] \<and>
      zoomStates (handleOpenFolder env s) = Map.empty \<and>
      revoked (handleOpenFolder env s) = revoked s @ map img_url (images s) \<and>
      \<not> loading (handleOpenFolder env s) \<and>
      alerts (handleOpenFolder env s) =
        (if err = ''AbortError'' then alerts s else alerts s @ [unsupported_msg]))"
  by (auto simp: load_picker_failed load_scan_failed load_rejected catch_block_def setLoading_def)

lemma scan_broken_file:
  "scanDirectory (single_file_dir broken_file) [] = Inr [item_of broken_file]"
  by (simp add: scan_single_file broken_file_def ext_of_def toLowerCase_def toLowerCase_char_def
      allowedExt_def)

lemma promise_all_broken_file:
  "promise_all [item_of broken_file] [0] n = (Rejected ''NotFoundError'', n)"
  by (simp add: promise_all_def item_of_def broken_file_def)

lemma load_broken_file:
  "handleOpenFolder broken_file_env s =
     s\<lparr>loading := False, images := [], revoked := revoked s @ map img_url (images s),
       zoomStates := Map.empty, console := console s @ [''NotFoundError''],
       alerts := alerts s @ [unsupported_msg]\<rparr>"
proof -
  have "picker broken_file_env = Inr (single_file_dir broken_file)"
    "promise_all [item_of broken_file] (schedule broken_file_env) (nextUrl s) =
       (Rejected ''NotFoundError'', nextUrl s)"
    by (simp_all add: broken_file_env_def promise_all_broken_file)
  from load_rejected [OF this(1) scan_broken_file this(2)] show ?thesis
    by (simp add: catch_block_def setLoading_def)
qed

text \<open>
  Claim C7, as stated: after a load that fails for a reason other than cancellation the
  list equals the list before the load.  It fails when the one image of the chosen
  directory cannot be read: the load ends with the notice, and the three images held
  before are gone.
\<close>

theorem failed_load_clears_counterexample:
  "length (images gallery3) = 3 \<and>
   images (handleOpenFolder broken_file_env gallery3) = [] \<and>
   alerts (handleOpenFolder broken_file_env gallery3) = [unsupported_msg] \<and>
   revoked (handleOpenFolder broken_file_env gallery3) = [0, 1, 2]"
  by (simp add: load_broken_file gallery3_def initial_state_def image_of_def)

lemma scan_aborting_file:
  "scanDirectory (single_file_dir aborting_file) [] = Inr [item_of aborting_file]"
  by (simp add: scan_single_file aborting_file_def ext_of_def toLowerCase_def toLowerCase_char_def
      allowedExt_def)

lemma promise_all_aborting_file:
  "promise_all [item_of aborting_file] [0] n = (Rejected ''AbortError'', n)"
  by (simp add: promise_all_def item_of_def aborting_file_def)

theorem failed_load_state_witness:
  "picker denied_env = Inl ''SecurityError'' \<and> ''SecurityError'' \<noteq> ''AbortError'' \<and>
   handleOpenFolder denied_env gallery3 =
     gallery3\<lparr>loading := False, console := console gallery3 @ [''SecurityError''],
       alerts := alerts gallery3 @ [unsupported_msg]\<rparr> \<and>
   picker broken_file_env = Inr (single_file_dir broken_file) \<and>
   scanDirectory (single_file_dir broken_file) [] = Inr [item_of broken_file] \<and>
   promise_all [item_of broken_file] (schedule broken_file_env) (nextUrl gallery3) =
     (Rejected ''NotFoundError'', 3) \<and>
   images (handleOpenFolder broken_file_env gallery3) = [] \<and>
   zoomStates (handleOpenFolder broken_file_env gallery3) = Map.empty \<and>
   \<not> loading (handleOpenFolder broken_file_env gallery3) \<and>
   alerts (handleOpenFolder broken_file_env gallery3) = [unsupported_msg] \<and>
   picker aborting_file_env = Inr (single_file_dir aborting_file) \<and>
   scanDirectory (single_file_dir aborting_file) [] = Inr [item_of aborting_file] \<and>
   promise_all [item_of aborting_file] (schedule aborting_file_env) (nextUrl gallery3) =
     (Rejected ''AbortError'', 3) \<and>
   images (handleOpenFolder aborting_file_env gallery3) = [] \<and>
   revoked (handleOpenFolder aborting_file_env gallery3) = [0, 1, 2] \<and>
   \<not> loading (handleOpenFolder aborting_file_env gallery3) \<and>
   alerts (handleOpenFolder aborting_file_env gallery3) = []"
proof -
  have g: "alerts gallery3 = []" "revoked gallery3 = []" "nextUrl gallery3 = 3"
    "map img_url (images gallery3) = [0, 1, 2]"
    by (simp_all add: gallery3_def initial_state_def image_of_def)
  have p1: "picker denied_env = Inl ''SecurityError''" and e1: "''SecurityError'' \<noteq> ''AbortError''"
    by (simp_all add: denied_env_def)
  have p2: "picker broken_file_env = Inr (single_file_dir broken_file)"
    by (simp add: broken_file_env_def)
  have r2: "promise_all [item_of broken_file] (schedule broken_file_env) (nextUrl gallery3) =
     (Rejected ''NotFoundError'', 3)"
    by (simp add: broken_file_env_def promise_all_broken_file g)
  have p3: "picker aborting_file_env = Inr (single_file_dir aborting_file)"
    by (simp add: aborting_file_env_def)
  have r3: "promise_all [item_of aborting_file] (schedule aborting_file_env) (nextUrl gallery3) =
     (Rejected ''AbortError'', 3)"
    by (simp add: aborting_file_env_def promise_all_aborting_file g)
  from failed_load_state [of denied_env "''SecurityError''" gallery3] p1 e1
  have a: "handleOpenFolder denied_env gallery3 =
     gallery3\<lparr>loading := False, console := console gallery3 @ [''SecurityError''],
       alerts := alerts gallery3 @ [unsupported_msg]\<rparr>"
    by blast
  from failed_load_state [of broken_file_env "''NotFoundError''" gallery3] p2 scan_broken_file r2
  have "images (handleOpenFolder broken_file_env gallery3) = [] \<and>
   zoomStates (handleOpenFolder broken_file_env gallery3) = Map.empty \<and>
   \<not> loading (handleOpenFolder broken_file_env gallery3) \<and>
   alerts (handleOpenFolder broken_file_env gallery3) =
     (if ''NotFoundError'' = ''AbortError'' then alerts gallery3
      else alerts gallery3 @ [unsupported_msg])"
    by blast
  then have b: "images (handleOpenFolder broken_file_env gallery3) = [] \<and>
   zoomStates (handleOpenFolder broken_file_env gallery3) = Map.empty \<and>
   \<not> loading (handleOpenFolder broken_file_env gallery3) \<and>
   alerts (handleOpenFolder broken_file_env gallery3) = [unsupported_msg]"
    by (simp add: g)
  from failed_load_state [of aborting_file_env "''AbortError''" gallery3] p3 scan_aborting_file r3
  have "images (handleOpenFolder aborting_file_env gallery3) = [] \<and>
   revoked (handleOpenFolder aborting_file_env gallery3) =
     revoked gallery3 @ map img_url (images gallery3) \<and>
   \<not> loading (handleOpenFolder aborting_file_env gallery3) \<and>
   alerts (handleOpenFolder aborting_file_env gallery3) =
     (if ''AbortError'' = ''AbortError'' then alerts gallery3
      else alerts gallery3 @ [unsupported_msg])"
    by blast
  then have c: "images (handleOpenFolder aborting_file_env gallery3) = [] \<and>
   revoked (handleOpenFolder aborting_file_env gallery3) = [0, 1, 2] \<and>
   \<not> loading (handleOpenFolder aborting_file_env gallery3) \<and>
   alerts (handleOpenFolder aborting_file_env gallery3) = []"
    by (simp add: g)
  from p1 e1 a p2 scan_broken_file r2 b p3 scan_aborting_file r3 c show ?thesis by simp
qed

text \<open>
  Claim C9: a load whose prompt and scan succeed, with items \<open>items\<close>.  If every
  \<open>getFile\<close> settles, in whatever order, and succeeds, the published list has one image
  per item and its \<open>k\<close>-th image is made from the \<open>k\<close>-th item.  While some \<open>getFile\<close> has not
  settled no list is published.  If a \<open>getFile\<close> that settles fails, the load ends with
  no list published.
\<close>

theorem materialize_all_or_nothing:
  assumes "picker env = Inr d" and "scanDirectory d [] = Inr items"
    and "t = handleOpenFolder env s"
  shows "((\<forall>k < length items. k \<in> set (schedule env) \<and> \<not> isl (getFile (item_handle (items ! k)))) \<longrightarrow>
            \<not> loading t \<and> length (images t) = length items \<and>
            (\<forall>k < length items. img_name (images t ! k) = item_name (items ! k) \<and>
                                 img_handle (images t ! k) = item_handle (items ! k))) \<and>
         ((\<exists>k < length items. k \<notin> set (schedule env)) \<longrightarrow> images t = []) \<and>
         ((\<exists>k < length items. k \<in> set (schedule env) \<and> isl (getFile (item_handle (items ! k)))) \<longrightarrow>
            images t = [] \<and> \<not> loading t)"
proof (intro conjI impI)
  assume all: "\<forall>k < length items. k \<in> set (schedule env) \<and> \<not> isl (getFile (item_handle (items ! k)))"
  from promise_all_succeeds [OF all] obtain imgs n where
    f: "promise_all items (schedule env) (nextUrl s) = (Fulfilled imgs, n)" by blast
  from load_fulfilled [OF assms(1,2) f] assms(3) have t: "images t = imgs" "\<not> loading t"
    by simp_all
  with promise_all_Fulfilled [OF f]
  show "\<not> loading t" "length (images t) = length items"
    "\<forall>k < length items. img_name (images t ! k) = item_name (items ! k) \<and>
                         img_handle (images t ! k) = item_handle (items ! k)"
    by simp_all
next
  assume missing: "\<exists>k < length items. k \<notin> set (schedule env)"
  show "images t = []"
  proof (cases rule: promise_all_trichotomy [of items "schedule env" "nextUrl s"])
    case (pending n)
    from load_pending [OF assms(1,2) this] assms(3) show ?thesis by simp
  next
    case (fulfilled imgs n)
    from promise_all_Fulfilled [OF this] missing show ?thesis by blast
  next
    case (rejected e n)
    from load_rejected [OF assms(1,2) this] assms(3) show ?thesis by simp
  qed
next
  assume "\<exists>k < length items. k \<in> set (schedule env) \<and> isl (getFile (item_handle (items ! k)))"
  then obtain k where "k < length items" "k \<in> set (schedule env)"
    "isl (getFile (item_handle (items ! k)))" by blast
  from promise_all_rejects [OF this] obtain e n where
    "promise_all items (schedule env) (nextUrl s) = (Rejected e, n)" by blast
  from load_rejected [OF assms(1,2) this] assms(3) show "images t = []" "\<not> loading t"
    by simp_all
qed


lemma scan_scenario: "scanDirectory scenario_tree [] = Inr scenario_items"
  by (simp add: scenario_tree_def scenario_items_def item_of_def file_of_def ext_of_def
      toLowerCase_def toLowerCase_char_def allowedExt_def)

lemma scenario_items_nth:
  "length scenario_items = 3"
  "scenario_items ! 0 = item_of (file_of ''a.png'' 0)"
  "scenario_items ! 1 = item_of (file_of ''b.jpg'' 1)"
  "scenario_items ! Suc 0 = item_of (file_of ''b.jpg'' 1)"
  "scenario_items ! 2 = item_of (file_of ''D.JPEG'' 3)"
  by (simp_all add: scenario_items_def)

lemma less_3_cases: "k < (3::nat) \<longleftrightarrow> k = 0 \<or> k = 1 \<or> k = 2"
  by auto

theorem materialize_all_or_nothing_witness:
  "picker scenario_env = Inr scenario_tree \<and>
   scanDirectory scenario_tree [] = Inr scenario_items \<and>
   schedule scenario_env = [2, 0, 1] \<and>
   \<not> loading (handleOpenFolder scenario_env initial_state) \<and>
   length (images (handleOpenFolder scenario_env initial_state)) = 3 \<and>
   img_name (images (handleOpenFolder scenario_env initial_state) ! 0) = ''a.png'' \<and>
   img_name (images (handleOpenFolder scenario_env initial_state) ! 1) = ''b.jpg'' \<and>
   img_name (images (handleOpenFolder scenario_env initial_state) ! 2) = ''D.JPEG'' \<and>
   picker stalled_env = Inr scenario_tree \<and> schedule stalled_env = [2, 0] \<and>
   images (handleOpenFolder stalled_env gallery3) = [] \<and>
   picker broken_file_env = Inr (single_file_dir broken_file) \<and>
   scanDirectory (single_file_dir broken_file) [] = Inr [item_of broken_file] \<and>
   images (handleOpenFolder broken_file_env gallery3) = [] \<and>
   \<not> loading (handleOpenFolder broken_file_env gallery3)"
proof -
  have p1: "picker scenario_env = Inr scenario_tree" and s1: "schedule scenario_env = [2, 0, 1]"
    by (simp_all add: scenario_env_def)
  have p2: "picker stalled_env = Inr scenario_tree" and s2: "schedule stalled_env = [2, 0]"
    by (simp_all add: stalled_env_def)
  have p3: "picker broken_file_env = Inr (single_file_dir broken_file)"
    and s3: "schedule broken_file_env = [0]"
    by (simp_all add: broken_file_env_def)
  have ok: "\<forall>k < length scenario_items.
      k \<in> set (schedule scenario_env) \<and> \<not> isl (getFile (item_handle (scenario_items ! k)))"
    by (simp add: s1 scenario_items_nth less_3_cases item_of_def file_of_def)
  have missing: "\<exists>k < length scenario_items. k \<notin> set (schedule stalled_env)"
    by (intro exI [of _ 1]) (simp add: s2 scenario_items_nth)
  have failing: "\<exists>k < length [item_of broken_file].
      k \<in> set (schedule broken_file_env) \<and> isl (getFile (item_handle ([item_of broken_file] ! k)))"
    by (intro exI [of _ 0]) (simp add: s3 item_of_def broken_file_def)
  from materialize_all_or_nothing [OF p1 scan_scenario refl, of initial_state] ok
  have a: "\<not> loading (handleOpenFolder scenario_env initial_state) \<and>
      length (images (handleOpenFolder scenario_env initial_state)) = 3 \<and>
      img_name (images (handleOpenFolder scenario_env initial_state) ! 0) = ''a.png'' \<and>
      img_name (images (handleOpenFolder scenario_env initial_state) ! 1) = ''b.jpg'' \<and>
      img_name (images (handleOpenFolder scenario_env initial_state) ! 2) = ''D.JPEG''"
    by (simp add: scenario_items_nth item_of_def file_of_def)
  from materialize_all_or_nothing [OF p2 scan_scenario refl, of gallery3] missing
  have b: "images (handleOpenFolder stalled_env gallery3) = []" by blast
  from materialize_all_or_nothing [OF p3 scan_broken_file refl, of gallery3] failing
  have c: "images (handleOpenFolder broken_file_env gallery3) = [] \<and>
      \<not> loading (handleOpenFolder broken_file_env gallery3)" by blast
  from p1 s1 p2 s2 p3 scan_scenario scan_broken_file a b c show ?thesis by simp
qed

lemma scan_one_png:
  "scanDirectory (single_file_dir (file_of ''z.png'' 9)) [] = Inr [item_of (file_of ''z.png'' 9)]"
  by (simp add: scan_single_file hname_file_of ext_of_def toLowerCase_def toLowerCase_char_def
      allowedExt_def)

lemma load_one_png:
  "handleOpenFolder one_png_env s =
     s\<lparr>loading := False,
       images := [\<lparr>img_name = ''z.png'', img_url = nextUrl s, img_handle = file_of ''z.png'' 9\<rparr>],
       revoked := revoked s @ map img_url (images s),
       zoomStates := Map.empty, nextUrl := Suc (nextUrl s)\<rparr>"
proof -
  have p: "picker one_png_env = Inr (single_file_dir (file_of ''z.png'' 9))"
    by (simp add: one_png_env_def)
  have "promise_all [item_of (file_of ''z.png'' 9)] (schedule one_png_env) (nextUrl s) =
      (Fulfilled [\<lparr>img_name = ''z.png'', img_url = nextUrl s, img_handle = file_of ''z.png'' 9\<rparr>],
       Suc (nextUrl s))"
    by (simp add: promise_all_def one_png_env_def item_of_def file_of_def)
  from load_fulfilled [OF p scan_one_png this] show ?thesis .
qed

lemma viewing2_eq:
  "viewing2 = gallery3\<lparr>selectedIndex := Some 2, transformRef := Some default_transform\<rparr>"
  by (simp add: viewing2_def gallery3_def initial_state_def setSelectedIndex_def Let_def
      initialState_def)

lemma nav_preserves_index_valid:
  assumes "is_nav e" "index_valid s"
  shows "index_valid (step e s)"
proof (cases e)
  case (KeyDown key)
  with assms show ?thesis
    by (auto simp: index_valid_def handleKeyDown_def handleNext_index handlePrev_index
        next_index_def prev_index_def to_number_def split: option.splits)
next
  case (Gesture t)
  with assms show ?thesis by (auto simp: index_valid_def split: option.splits)
next
  case (OpenFolder env)
  with assms show ?thesis by (simp add: is_nav_def)
qed (use assms in \<open>auto simp: index_valid_def handleNext_index handlePrev_index
        next_index_def prev_index_def to_number_def split: option.splits\<close>)

lemma load_selection_unchanged: "selectedIndex (handleOpenFolder env s) = selectedIndex s"
  by (simp add: handleOpenFolder_def Let_def setImages_def catch_block_def setLoading_def
      split: sum.splits prod.splits promise.splits)

text \<open>
  Claim C5 (after a successful load the list holds the \<open>N\<close> new images, the previous URLs
  are revoked, the zoom memory is empty and nothing is selected, whatever was selected
  before), evaluated on the code: a load of one image, started while index 2 of three
  images is selected, ends with one image, the three previous URLs revoked, an empty zoom
  memory, and index 2 still selected.
\<close>

theorem load_keeps_selection:
  "selectedIndex viewing2 = Some 2 \<and> \<not> loading viewing2 \<and>
   selectedIndex (step (OpenFolder one_png_env) viewing2) = Some 2 \<and>
   length (images (step (OpenFolder one_png_env) viewing2)) = 1 \<and>
   revoked (step (OpenFolder one_png_env) viewing2) = [0, 1, 2] \<and>
   zoomStates (step (OpenFolder one_png_env) viewing2) = Map.empty"
  by (simp add: load_one_png viewing2_eq gallery3_def initial_state_def image_of_def)

text \<open>
  Claim C6 (every operation, a new scan included, preserves
  \<open>0 \<le> selectedIndex < length images\<close>), evaluated on the code: the same load leads from a
  state that satisfies the invariant to one that violates it.  The navigation events
  preserve it (lemma \<open>nav_preserves_index_valid\<close>), and the load never changes the selection
  (lemma \<open>load_selection_unchanged\<close>).
\<close>

theorem load_breaks_index_valid:
  "index_valid viewing2 \<and> \<not> loading viewing2 \<and>
   \<not> index_valid (step (OpenFolder one_png_env) viewing2)"
  by (simp add: load_one_png viewing2_eq gallery3_def initial_state_def index_valid_def)

end
